theory Spec2Isabelle
  imports Main "HOL-Library.Word" "HOL-Library.Stream"
begin

unbundle bit_operations_syntax

section \<open>Proxy address parser (\<open>parseProxy\<close>, util.c)\<close>

subsection \<open>C strings and the libc helpers the parser calls\<close>

text \<open>
  A C string is modelled by the list of its characters; the terminating NUL is the end of
  the list. Every read goes through \<open>peek\<close>, which yields NUL at the end of the list, and
  a NUL inside a list ends the string there, as it does in memory. \<open>cp + n\<close> is
  \<open>drop n cp\<close>. A null pointer is \<open>None\<close>.
\<close>

abbreviation NUL :: char where
  "NUL \<equiv> CHR 0x00"

definition peek :: "string \<Rightarrow> char" where
  "peek cp = (case cp of [] \<Rightarrow> NUL | c # _ \<Rightarrow> c)"

text \<open>\<open>isdigit\<close> and \<open>tolower\<close> of \<open>ctype.h\<close>, in the C locale.\<close>

definition isdigit :: "char \<Rightarrow> bool" where
  "isdigit c = (let n = (of_char c :: nat) in 48 \<le> n \<and> n \<le> 57)"

definition tolower :: "char \<Rightarrow> char" where
  "tolower c = (let n = (of_char c :: nat) in if 65 \<le> n \<and> n \<le> 90 then char_of (n + 32) else c)"

text \<open>
  \<open>strncasecmp s1 s2 n\<close>: compares at most \<open>n\<close> characters, ignoring case, and stops at
  the end of either string; the result is the difference of the first two characters
  that differ, 0 when there is none.
\<close>

fun strncasecmp :: "string \<Rightarrow> string \<Rightarrow> nat \<Rightarrow> int" where
  "strncasecmp s1 s2 0 = 0"
| "strncasecmp s1 s2 (Suc n) =
     (let c1 = tolower (peek s1); c2 = tolower (peek s2) in
      if c1 \<noteq> c2 then int (of_char c1) - int (of_char c2)
      else if c1 = NUL then 0
      else strncasecmp (drop 1 s1) (drop 1 s2) n)"

text \<open>\<open>strcspn s reject\<close>: the length of the longest prefix of \<open>s\<close> with no character of \<open>reject\<close>.\<close>

fun strcspn :: "string \<Rightarrow> string \<Rightarrow> nat" where
  "strcspn [] reject = 0"
| "strcspn (c # cs) reject =
     (if c = NUL \<or> c \<in> set reject then 0 else Suc (strcspn cs reject))"

text \<open>
  The integer types are those of an LP64 target: \<open>long\<close> has 64 bits and \<open>int\<close> has 32.
  The cast \<open>(int)\<close> of a \<open>long\<close> keeps the low 32 bits.
\<close>

type_synonym long = "64 word"
type_synonym cint = "32 word"

definition LONG_MAX :: nat where
  "LONG_MAX = 2 ^ 63 - 1"

definition INT_MAX :: nat where
  "INT_MAX = 2 ^ 31 - 1"

definition ERANGE :: int where
  "ERANGE = 34"

text \<open>
  \<open>strtol nptr &end 10\<close> at its only call site, where \<open>*nptr\<close> is a digit (so the white
  space and the sign that \<open>strtol\<close> accepts first are not modelled). It converts the
  longest run of decimal digits. The result is the value, the end pointer (the rest of
  the string; \<open>strtol\<close> always stores one) and the value of \<open>errno\<close> afterwards, given that
  it was 0 before: a value above \<open>LONG_MAX\<close> is clamped to \<open>LONG_MAX\<close> with \<open>ERANGE\<close>.
\<close>

fun strtol_digits :: "string \<Rightarrow> nat \<Rightarrow> nat \<times> string" where
  "strtol_digits [] acc = (acc, [])"
| "strtol_digits (c # cs) acc =
     (if isdigit c then strtol_digits cs (acc * 10 + (of_char c - 48)) else (acc, c # cs))"

definition strtol :: "string \<Rightarrow> long \<times> string option \<times> int" where
  "strtol nptr =
     (case strtol_digits nptr 0 of (v, rest) \<Rightarrow>
        if LONG_MAX < v then (word_of_nat LONG_MAX, Some rest, ERANGE)
        else (word_of_nat v, Some rest, 0))"

subsection \<open>\<open>parseProxy\<close>\<close>

text \<open>
  \<open>proxy_t\<close> is declared in a header; \<open>parseProxy\<close> uses its field \<open>host\<close> as a
  heap string that may be null and assigns an \<open>int\<close> to its field \<open>port\<close>.
\<close>

record proxy_t =
  host :: "string option"
  port :: cint

text \<open>
  The result is the return value (0 if parsed OK, 1 on error) and the proxy afterwards.
  \<open>myStrndup host len\<close> is \<open>take len host\<close>; allocation does not fail (\<open>myMalloc\<close> exits
  the process when it does).
\<close>

text \<open>
  The block under \<open>case ':'\<close> that reads the port: \<open>cp\<close> is already past the colon.
  \<open>None\<close> is its \<open>return 1\<close>; otherwise the port and the new \<open>cp\<close>.
\<close>

definition scan_port :: "string \<Rightarrow> (cint \<times> string) option" where
  "scan_port cp =
     (if isdigit (peek cp) then
        (case strtol cp of
           (l, end, errno) \<Rightarrow>
             (case end of
                None \<Rightarrow> None
              | Some e \<Rightarrow> if errno \<noteq> 0 then None else Some (ucast l, e)))
      else Some (80, cp))"

text \<open>\<open>if (!strncasecmp(cp, "http://", 7)) cp += 7;\<close>\<close>

definition skip_scheme :: "string \<Rightarrow> string" where
  "skip_scheme cp = (if strncasecmp cp ''http://'' 7 = 0 then drop 7 cp else cp)"

definition parseProxy :: "string option \<Rightarrow> proxy_t \<Rightarrow> int \<times> proxy_t" where
  "parseProxy value proxy =
     (case value of
        None \<Rightarrow> (0, proxy\<lparr>host := None\<rparr>)
      | Some v \<Rightarrow>
          let cp = skip_scheme v;
              len = strcspn cp '':/''
          in if len = 0 then (0, proxy\<lparr>host := None\<rparr>)
             else
               let hst = cp;
                   cp = drop len cp;
                   stored = (\<lambda>n. (0, proxy\<lparr>host := Some (take len hst), port := n\<rparr>))
               in if peek cp = CHR '':'' then
                    (case scan_port (drop 1 cp) of
                       None \<Rightarrow> (1, proxy)
                     | Some (n, cp) \<Rightarrow>
                         if peek cp = CHR ''/'' then
                           (if peek (drop 1 cp) \<noteq> NUL then (1, proxy) else stored n)
                         else if peek cp = NUL then stored n
                         else (1, proxy))
                  else if peek cp = CHR ''/'' then
                    (if peek (drop 1 cp) \<noteq> NUL then (1, proxy) else stored 80)
                  else if peek cp = NUL then stored 80
                  else (1, proxy))"

text \<open>
  The decimal value of a digit string, most significant digit first: what the port
  digits of a proxy string denote.
\<close>

definition dec_val :: "string \<Rightarrow> nat" where
  "dec_val ds = foldl (\<lambda>a c. a * 10 + (of_char c - 48)) 0 ds"

section \<open>Credential obfuscation (\<open>encryptPassword\<close>, \<open>decryptPassword\<close>, \<open>clearPassword\<close>, util.c)\<close>

subsection \<open>Memory, faults and the random source\<close>

text \<open>
  A heap block is the list of its bytes and a pointer is \<open>None\<close> (null) or the block it
  points to. A store outside the block, or through a null pointer, is undefined
  behaviour in C; the model stops there with a \<open>fault\<close>.
\<close>

type_synonym byte = "8 word"

datatype fault = NullPointer | OutOfBounds

definition poke :: "byte list option \<Rightarrow> nat \<Rightarrow> byte \<Rightarrow> fault + byte list option" where
  "poke p i b =
     (case p of
        None \<Rightarrow> Inl NullPointer
      | Some buf \<Rightarrow> if i < length buf then Inr (Some (buf[i := b])) else Inl OutOfBounds)"

text \<open>\<open>strlen\<close> reads up to the first zero byte; a block without one is read past its end.\<close>

fun strlen :: "byte list \<Rightarrow> fault + nat" where
  "strlen [] = Inl OutOfBounds"
| "strlen (b # bs) =
     (if b = 0 then Inr 0
      else (case strlen bs of Inl f \<Rightarrow> Inl f | Inr n \<Rightarrow> Inr (Suc n)))"

text \<open>
  \<open>myMalloc\<close> returns a block of the size asked for, or does not return (it exits the
  process when \<open>malloc\<close> fails). The bytes of a new block are indeterminate; its one
  caller here writes every byte before reading any, and 0 stands for them.
\<close>

definition myMalloc :: "nat \<Rightarrow> byte list" where
  "myMalloc n = replicate n 0"

text \<open>
  The state of the module: \<open>options.password\<close> and \<open>options.encrypted\<close>, the three statics
  \<open>passwordPad\<close>, \<open>passwordLen\<close> and \<open>needSeed\<close>, and what the module reads and writes
  outside itself. \<open>rnd\<close> is the libc generator, as the stream of the values that the
  next calls of \<open>random()\<close> return; \<open>srandom_seq seed\<close> is the stream that \<open>srandom(seed)\<close>
  installs; \<open>pid\<close> and \<open>clock\<close> are what \<open>getpid()\<close> and \<open>time(0)\<close> return. \<open>freed\<close> lists
  the blocks passed to \<open>free\<close>, oldest first, each with the bytes it held at that
  moment. The loop counters are \<open>int\<close> in the source; the model counts in \<open>nat\<close>, which is
  the same for blocks shorter than \<open>2 ^ 31\<close> bytes.
\<close>

record globals =
  password :: "byte list option"
  encrypted :: bool
  passwordPad :: "byte list option"
  passwordLen :: nat
  needSeed :: bool
  rnd :: "long stream"
  srandom_seq :: "cint \<Rightarrow> long stream"
  pid :: cint
  clock :: long
  freed :: "byte list list"

definition free :: "byte list option \<Rightarrow> byte list list \<Rightarrow> byte list list" where
  "free p blocks = (case p of None \<Rightarrow> blocks | Some buf \<Rightarrow> blocks @ [buf])"

definition seedPasswordRandom :: "globals \<Rightarrow> globals" where
  "seedPasswordRandom g =
     (if needSeed g
      then g\<lparr>rnd := srandom_seq g (ucast (scast (pid g) * clock g :: long)), needSeed := False\<rparr>
      else g)"

subsection \<open>The loops\<close>

text \<open>\<open>for (i = 0; i < passwordLen; ++i) passwordPad[i] = (char)random();\<close>\<close>

function pad_loop :: "nat \<Rightarrow> nat \<Rightarrow> byte list \<Rightarrow> long stream \<Rightarrow> fault + byte list \<times> long stream" where
  "pad_loop i len pad r =
     (if i < len then
        (if i < length pad then pad_loop (Suc i) len (pad[i := ucast (shd r)]) (stl r)
         else Inl OutOfBounds)
      else Inr (pad, r))"
  by pat_completeness auto
termination
  by (relation "measure (\<lambda>(i, len, pad, r). len - i)") auto

text \<open>\<open>for (i = 0; i < passwordLen; ++i) options.password[i] ^= passwordPad[i];\<close>\<close>

function xor_loop :: "nat \<Rightarrow> nat \<Rightarrow> byte list \<Rightarrow> byte list \<Rightarrow> fault + byte list" where
  "xor_loop i len buf pad =
     (if i < len then
        (if i < length buf \<and> i < length pad
         then xor_loop (Suc i) len (buf[i := buf ! i XOR pad ! i]) pad
         else Inl OutOfBounds)
      else Inr buf)"
  by pat_completeness auto
termination
  by (relation "measure (\<lambda>(i, len, buf, pad). len - i)") auto

text \<open>
  \<open>for (i = 0; i < passwordLen; ++i) { options.password[i] = (char)random();
  passwordPad[i] = (char)random(); }\<close>
\<close>

function clear_loop ::
  "nat \<Rightarrow> nat \<Rightarrow> byte list option \<Rightarrow> byte list option \<Rightarrow> long stream \<Rightarrow>
   fault + byte list option \<times> byte list option \<times> long stream" where
  "clear_loop i len pw pad r =
     (if i < len then
        (case poke pw i (ucast (shd r)) of
           Inl f \<Rightarrow> Inl f
         | Inr pw' \<Rightarrow>
             (case poke pad i (ucast (shd (stl r))) of
                Inl f \<Rightarrow> Inl f
              | Inr pad' \<Rightarrow> clear_loop (Suc i) len pw' pad' (stl (stl r))))
      else Inr (pw, pad, r))"
  by pat_completeness auto
termination
  by (relation "measure (\<lambda>(i, len, pw, pad, r). len - i)") auto

declare pad_loop.simps [simp del] xor_loop.simps [simp del] clear_loop.simps [simp del]

subsection \<open>\<open>clearPassword\<close>, \<open>encryptPassword\<close>, \<open>decryptPassword\<close>\<close>

definition clearPassword :: "globals \<Rightarrow> fault + globals" where
  "clearPassword g0 =
     (let g = seedPasswordRandom g0 in
      case clear_loop 0 (passwordLen g) (password g) (passwordPad g) (rnd g) of
        Inl f \<Rightarrow> Inl f
      | Inr (pw, pad, r) \<Rightarrow>
          Inr (g\<lparr>password := None, passwordPad := None, passwordLen := 0, rnd := r,
                 freed := free pad (free pw (freed g))\<rparr>))"

text \<open>The block \<open>if (!passwordPad) { ... }\<close> of \<open>encryptPassword\<close>.\<close>

definition make_pad :: "globals \<Rightarrow> fault + globals" where
  "make_pad g =
     (case passwordPad g of
        Some pad \<Rightarrow> Inr g
      | None \<Rightarrow>
          (case password g of
             None \<Rightarrow> Inl NullPointer
           | Some buf \<Rightarrow>
               (case strlen buf of
                  Inl f \<Rightarrow> Inl f
                | Inr n \<Rightarrow>
                    (case pad_loop 0 (n + 1) (myMalloc (n + 1)) (rnd g) of
                       Inl f \<Rightarrow> Inl f
                     | Inr (pad, r) \<Rightarrow>
                         Inr (g\<lparr>passwordLen := n + 1, passwordPad := Some pad, rnd := r\<rparr>)))))"

text \<open>The XOR loop that \<open>encryptPassword\<close> and \<open>decryptPassword\<close> share, on the globals.\<close>

definition xor_password :: "globals \<Rightarrow> fault + globals" where
  "xor_password g =
     (if passwordLen g = 0 then Inr g
      else
        (case password g of
           None \<Rightarrow> Inl NullPointer
         | Some buf \<Rightarrow>
             (case passwordPad g of
                None \<Rightarrow> Inl NullPointer
              | Some pad \<Rightarrow>
                  (case xor_loop 0 (passwordLen g) buf pad of
                     Inl f \<Rightarrow> Inl f
                   | Inr buf' \<Rightarrow> Inr (g\<lparr>password := Some buf'\<rparr>)))))"

definition encryptPassword :: "globals \<Rightarrow> fault + globals" where
  "encryptPassword g0 =
     (if encrypted g0 \<or> password g0 = None then Inr g0
      else
        (case make_pad (seedPasswordRandom g0) of
           Inl f \<Rightarrow> Inl f
         | Inr g \<Rightarrow>
             (case xor_password g of
                Inl f \<Rightarrow> Inl f
              | Inr g' \<Rightarrow> Inr (g'\<lparr>encrypted := True\<rparr>))))"

definition decryptPassword :: "globals \<Rightarrow> fault + globals" where
  "decryptPassword g =
     (if \<not> encrypted g \<or> password g = None \<or> passwordPad g = None then Inr g
      else
        (case xor_password g of
           Inl f \<Rightarrow> Inl f
         | Inr g' \<Rightarrow> Inr (g'\<lparr>encrypted := False\<rparr>)))"

subsection \<open>The plaintext a state stands for, and the invariant of the module\<close>

text \<open>
  \<open>xor_upto len buf pad\<close>: \<open>buf\<close> with each of its first \<open>len\<close> bytes XORed with the
  byte of \<open>pad\<close> at the same place.
\<close>

definition xor_upto :: "nat \<Rightarrow> byte list \<Rightarrow> byte list \<Rightarrow> byte list" where
  "xor_upto len buf pad =
     map (\<lambda>k. if k < len then buf ! k XOR pad ! k else buf ! k) [0..<length buf]"

text \<open>
  The plaintext behind \<open>options.password\<close>: the buffer itself, or the buffer XORed with
  the pad when the flag says it is obfuscated.
\<close>

definition plain :: "globals \<Rightarrow> byte list option" where
  "plain g =
     (case password g of
        None \<Rightarrow> None
      | Some buf \<Rightarrow>
          (case passwordPad g of
             None \<Rightarrow> Some buf
           | Some pad \<Rightarrow> Some (if encrypted g then xor_upto (passwordLen g) buf pad else buf)))"

text \<open>
  With no pad, the length is 0 and a plaintext password, if there is one, is a C string.
  With a pad, the length is positive, the pad has exactly that many bytes, there is a
  password whose buffer has at least that many, and the length is \<open>strlen\<close> of the
  plaintext plus one.
\<close>

definition guard_inv :: "globals \<Rightarrow> bool" where
  "guard_inv g =
     (case passwordPad g of
        None \<Rightarrow>
          passwordLen g = 0 \<and>
          (case password g of None \<Rightarrow> True | Some buf \<Rightarrow> encrypted g \<or> 0 \<in> set buf)
      | Some pad \<Rightarrow>
          0 < passwordLen g \<and> length pad = passwordLen g \<and>
          (case plain g of
             None \<Rightarrow> False
           | Some p \<Rightarrow> passwordLen g \<le> length p \<and> strlen p = Inr (passwordLen g - 1)))"


subsection \<open>An example state\<close>

text \<open>
  The password \<open>ab\<close> in a block of three bytes, not yet obfuscated, in a process
  that has not seeded the generator; \<open>srandom(seed)\<close> makes \<open>random()\<close> count up from the
  seed, and process 1 at time 1 seeds with 1.
\<close>

definition fresh_ab :: globals where
  "fresh_ab =
     \<lparr>password = Some [97, 98, 0], encrypted = False, passwordPad = None, passwordLen = 0,
      needSeed = True, rnd = siterate ((+) 1) 100, srandom_seq = siterate ((+) 1) \<circ> ucast,
      pid = 1, clock = 1, freed = []\<rparr>"

section \<open>Properties of \<open>parseProxy\<close>\<close>

subsection \<open>Evaluation and the shape of the result\<close>

lemma strncasecmp_numeral:
  "strncasecmp s1 s2 (numeral k) =
     (let c1 = tolower (peek s1); c2 = tolower (peek s2) in
      if c1 \<noteq> c2 then int (of_char c1) - int (of_char c2)
      else if c1 = NUL then 0
      else strncasecmp (drop 1 s1) (drop 1 s2) (pred_numeral k))"
  by (simp add: numeral_eq_Suc)

lemmas proxy_eval = parseProxy_def skip_scheme_def scan_port_def peek_def isdigit_def
  tolower_def strtol_def LONG_MAX_def ERANGE_def strncasecmp_numeral Let_def char_of_def
  bit_Suc_0_iff

lemma parseProxy_ok_or_unchanged:
  "fst (parseProxy v p) = 0 \<or> parseProxy v p = (1, p)"
  by (simp add: parseProxy_def Let_def split: option.split prod.split)

lemma strcspn_append:
  "\<forall>x\<in>set h. x \<noteq> NUL \<and> x \<notin> set rej \<Longrightarrow> c = NUL \<or> c \<in> set rej \<Longrightarrow>
   strcspn (h @ c # r) rej = length h"
  by (induction h) auto

lemma strtol_digits_append:
  "\<forall>c\<in>set ds. isdigit c \<Longrightarrow> \<not> isdigit (peek rest) \<Longrightarrow>
   strtol_digits (ds @ rest) acc = (foldl (\<lambda>a c. a * 10 + (of_char c - 48)) acc ds, rest)"
proof (induction ds arbitrary: acc)
  case Nil
  then show ?case by (cases rest) (simp_all add: peek_def)
next
  case (Cons d ds)
  then show ?case by simp
qed

lemma strtol_run:
  assumes "\<forall>c\<in>set ds. isdigit c" "\<not> isdigit (peek rest)"
  shows "strtol (ds @ rest) =
    (if LONG_MAX < dec_val ds then (word_of_nat LONG_MAX, Some rest, ERANGE)
     else (word_of_nat (dec_val ds), Some rest, 0))"
  by (simp add: strtol_def dec_val_def strtol_digits_append [OF assms])

lemma scan_port_run:
  assumes "ds \<noteq> []" "\<forall>c\<in>set ds. isdigit c" "\<not> isdigit (peek rest)"
  shows "scan_port (ds @ rest) =
    (if LONG_MAX < dec_val ds then None else Some (ucast (word_of_nat (dec_val ds) :: long), rest))"
proof -
  from assms(1,2) have "isdigit (peek (ds @ rest))"
    by (cases ds) (simp_all add: peek_def)
  then show ?thesis
    by (simp add: scan_port_def strtol_run [OF assms(2,3)] ERANGE_def)
qed

text \<open>
  The whole behaviour on \<open>host:digits\<close> followed by anything that is not a digit:
  failure when the digits exceed \<open>LONG_MAX\<close> or when the rest is neither empty nor a
  single slash, and otherwise the host with the value cast to \<open>int\<close>.
\<close>

lemma parseProxy_colon_digits:
  assumes v: "skip_scheme v = h @ CHR '':'' # ds @ rest"
    and h: "h \<noteq> []" "\<forall>c\<in>set h. c \<noteq> NUL \<and> c \<noteq> CHR '':'' \<and> c \<noteq> CHR ''/''"
    and ds: "ds \<noteq> []" "\<forall>c\<in>set ds. isdigit c" "\<not> isdigit (peek rest)"
  shows "parseProxy (Some v) p =
    (if LONG_MAX < dec_val ds then (1, p)
     else if peek rest = NUL \<or> (peek rest = CHR ''/'' \<and> peek (drop 1 rest) = NUL)
     then (0, p\<lparr>host := Some h, port := ucast (word_of_nat (dec_val ds) :: long)\<rparr>)
     else (1, p))"
proof -
  from h(2) have len: "strcspn (h @ CHR '':'' # ds @ rest) '':/'' = length h"
    by (intro strcspn_append) auto
  from h(1) have pos: "length h \<noteq> 0" by simp
  show ?thesis
    by (simp add: parseProxy_def v len pos h(1) Let_def scan_port_run [OF ds] peek_def)
qed

lemma int_cast_small:
  assumes "n \<le> INT_MAX"
  shows "sint (ucast (word_of_nat n :: long) :: cint) = int n"
proof -
  from assms have n: "n < 2 ^ 31" by (simp add: INT_MAX_def)
  then have n64: "n < 2 ^ 64" by simp
  from n64 have "(ucast (word_of_nat n :: long) :: cint) = word_of_nat n"
    by (simp add: unsigned_of_nat take_bit_nat_eq_self)
  moreover from n have "sint (word_of_nat n :: cint) = int n"
    by (simp add: signed_of_nat signed_take_bit_int_eq_self)
  ultimately show ?thesis by simp
qed

subsection \<open>C2: a failed parse stores nothing\<close>

text \<open>
  C2. For every input, null pointer included, and every previously stored proxy: when
  \<open>parseProxy\<close> does not return 0, the proxy afterwards is the proxy before, host and
  port alike.
\<close>

theorem parseProxy_failure_unchanged:
  "fst (parseProxy v proxy) \<noteq> 0 \<Longrightarrow> snd (parseProxy v proxy) = proxy"
  using parseProxy_ok_or_unchanged [of v proxy] by auto

theorem parseProxy_failure_unchanged_witness:
  "fst (parseProxy (Some ''proxy.example.com:8080/extra'')
         \<lparr>host = Some ''old.example.org'', port = 3128\<rparr>) \<noteq> 0 \<and>
   snd (parseProxy (Some ''proxy.example.com:8080/extra'')
         \<lparr>host = Some ''old.example.org'', port = 3128\<rparr>) =
     \<lparr>host = Some ''old.example.org'', port = 3128\<rparr>"
proof -
  have f: "fst (parseProxy (Some ''proxy.example.com:8080/extra'')
         \<lparr>host = Some ''old.example.org'', port = 3128\<rparr>) \<noteq> 0"
    by (simp add: proxy_eval)
  from f parseProxy_failure_unchanged [OF f] show ?thesis by simp
qed

subsection \<open>C3: the acceptance table\<close>

text \<open>
  C3. Whatever was stored before: \<open>proxy.example.com\<close> is accepted with that host and
  port 80; \<open>proxy.example.com:8080\<close> with that host and port 8080;
  \<open>http://proxy.example.com:3128/\<close> with host \<open>proxy.example.com\<close> and port 3128, and so
  is the same string with the prefix written \<open>HtTp://\<close>;
  \<open>proxy.example.com:8080/extra\<close> is rejected with return value 1.
\<close>

theorem parseProxy_acceptance_table:
  "parseProxy (Some ''proxy.example.com'') p =
     (0, p\<lparr>host := Some ''proxy.example.com'', port := 80\<rparr>) \<and>
   parseProxy (Some ''proxy.example.com:8080'') p =
     (0, p\<lparr>host := Some ''proxy.example.com'', port := 8080\<rparr>) \<and>
   parseProxy (Some ''http://proxy.example.com:3128/'') p =
     (0, p\<lparr>host := Some ''proxy.example.com'', port := 3128\<rparr>) \<and>
   parseProxy (Some ''HtTp://proxy.example.com:3128/'') p =
     (0, p\<lparr>host := Some ''proxy.example.com'', port := 3128\<rparr>) \<and>
   fst (parseProxy (Some ''proxy.example.com:8080/extra'') p) = 1"
proof (intro conjI)
  show "parseProxy (Some ''proxy.example.com'') p =
     (0, p\<lparr>host := Some ''proxy.example.com'', port := 80\<rparr>)"
    by (simp add: proxy_eval)
  show "parseProxy (Some ''proxy.example.com:8080'') p =
     (0, p\<lparr>host := Some ''proxy.example.com'', port := 8080\<rparr>)"
    by (simp add: proxy_eval)
  show "parseProxy (Some ''http://proxy.example.com:3128/'') p =
     (0, p\<lparr>host := Some ''proxy.example.com'', port := 3128\<rparr>)"
    by (simp add: proxy_eval)
  show "parseProxy (Some ''HtTp://proxy.example.com:3128/'') p =
     (0, p\<lparr>host := Some ''proxy.example.com'', port := 3128\<rparr>)"
    by (simp add: proxy_eval)
  show "fst (parseProxy (Some ''proxy.example.com:8080/extra'') p) = 1"
    by (simp add: proxy_eval)
qed

subsection \<open>C5: the port after a colon and digits\<close>

text \<open>
  C5, as stated, fails: \<open>host:0\<close> is accepted and the port stored is 0, which is not
  positive.
\<close>

theorem parseProxy_port_zero_counterexample:
  "fst (parseProxy (Some ''host:0'') \<lparr>host = None, port = 80\<rparr>) = 0 \<and>
   \<not> 0 < sint (port (snd (parseProxy (Some ''host:0'') \<lparr>host = None, port = 80\<rparr>)))"
  by (simp add: proxy_eval)

text \<open>
  C5, amended. Let the input, after the optional \<open>http://\<close> prefix, be a non-empty host
  \<open>h\<close> (no colon, slash or NUL), a colon, a non-empty run of decimal digits \<open>ds\<close>, and a
  rest that does not begin with a digit. If the decimal value of \<open>ds\<close> is above
  \<open>LONG_MAX\<close>, \<open>parseProxy\<close> returns 1 and stores nothing. If \<open>parseProxy\<close> returns 0 and
  the value is at most \<open>INT_MAX\<close>, the stored host is \<open>h\<close> and the stored port is that
  value: never negative, and zero when the value is zero.
\<close>

theorem parseProxy_port_decimal:
  assumes "skip_scheme v = h @ CHR '':'' # ds @ rest"
    and "h \<noteq> []" "\<forall>c\<in>set h. c \<noteq> NUL \<and> c \<noteq> CHR '':'' \<and> c \<noteq> CHR ''/''"
    and "ds \<noteq> []" "\<forall>c\<in>set ds. isdigit c" "\<not> isdigit (peek rest)"
  shows "(LONG_MAX < dec_val ds \<longrightarrow> parseProxy (Some v) p = (1, p)) \<and>
         (dec_val ds \<le> INT_MAX \<and> fst (parseProxy (Some v) p) = 0 \<longrightarrow>
            host (snd (parseProxy (Some v) p)) = Some h \<and>
            sint (port (snd (parseProxy (Some v) p))) = int (dec_val ds) \<and>
            0 \<le> sint (port (snd (parseProxy (Some v) p))))"
proof (intro conjI impI)
  assume "LONG_MAX < dec_val ds"
  then show "parseProxy (Some v) p = (1, p)"
    by (simp add: parseProxy_colon_digits [OF assms])
next
  assume a: "dec_val ds \<le> INT_MAX \<and> fst (parseProxy (Some v) p) = 0"
  then have "\<not> LONG_MAX < dec_val ds"
    by (simp add: INT_MAX_def LONG_MAX_def)
  with a have r: "parseProxy (Some v) p =
      (0, p\<lparr>host := Some h, port := ucast (word_of_nat (dec_val ds) :: long)\<rparr>)"
    by (simp add: parseProxy_colon_digits [OF assms] split: if_splits)
  from a have s: "sint (ucast (word_of_nat (dec_val ds) :: long) :: cint) = int (dec_val ds)"
    by (simp add: int_cast_small)
  from r show "host (snd (parseProxy (Some v) p)) = Some h" by simp
  from r s show "sint (port (snd (parseProxy (Some v) p))) = int (dec_val ds)" by simp
  from r s show "0 \<le> sint (port (snd (parseProxy (Some v) p)))" by simp
qed

theorem parseProxy_port_decimal_witness:
  "fst (parseProxy (Some ''http://host:8080/'') \<lparr>host = None, port = 80\<rparr>) = 0 \<and>
   host (snd (parseProxy (Some ''http://host:8080/'') \<lparr>host = None, port = 80\<rparr>)) = Some ''host'' \<and>
   sint (port (snd (parseProxy (Some ''http://host:8080/'') \<lparr>host = None, port = 80\<rparr>))) = 8080 \<and>
   parseProxy (Some ''host:9223372036854775808'') \<lparr>host = None, port = 80\<rparr> =
     (1, \<lparr>host = None, port = 80\<rparr>)"
proof -
  have v: "skip_scheme ''http://host:8080/'' = ''host'' @ CHR '':'' # ''8080'' @ ''/''"
    by (simp add: proxy_eval)
  have h: "''host'' \<noteq> []"
    "\<forall>c\<in>set ''host''. c \<noteq> NUL \<and> c \<noteq> CHR '':'' \<and> c \<noteq> CHR ''/''"
    by simp_all
  have ds: "''8080'' \<noteq> []" "\<forall>c\<in>set ''8080''. isdigit c" "\<not> isdigit (peek ''/'')"
    by (simp_all add: isdigit_def peek_def)
  have d: "dec_val ''8080'' = 8080"
    by (simp add: dec_val_def)
  have ok: "fst (parseProxy (Some ''http://host:8080/'') \<lparr>host = None, port = 80\<rparr>) = 0"
    by (simp add: proxy_eval)
  have v': "skip_scheme ''host:9223372036854775808'' =
      ''host'' @ CHR '':'' # ''9223372036854775808'' @ []"
    by (simp add: proxy_eval)
  have ds': "''9223372036854775808'' \<noteq> []" "\<forall>c\<in>set ''9223372036854775808''. isdigit c"
    "\<not> isdigit (peek [])"
    by (simp_all add: isdigit_def peek_def)
  have d': "LONG_MAX < dec_val ''9223372036854775808''"
    by (simp add: dec_val_def LONG_MAX_def)
  from parseProxy_port_decimal [OF v h ds, of "\<lparr>host = None, port = 80\<rparr>"] ok d
  have "host (snd (parseProxy (Some ''http://host:8080/'') \<lparr>host = None, port = 80\<rparr>)) = Some ''host'' \<and>
   sint (port (snd (parseProxy (Some ''http://host:8080/'') \<lparr>host = None, port = 80\<rparr>))) = 8080"
    by (simp add: INT_MAX_def)
  moreover from parseProxy_port_decimal [OF v' h ds', of "\<lparr>host = None, port = 80\<rparr>"] d'
  have "parseProxy (Some ''host:9223372036854775808'') \<lparr>host = None, port = 80\<rparr> =
     (1, \<lparr>host = None, port = 80\<rparr>)"
    by blast
  ultimately show ?thesis using ok by blast
qed

subsection \<open>C6: the empty string and the empty host\<close>

text \<open>
  C6, as stated, fails: after the empty string the stored host is cleared, and the
  stored port is still the port of before (here 3128).
\<close>

theorem parseProxy_empty_keeps_port_counterexample:
  "parseProxy (Some []) \<lparr>host = Some ''old.example.org'', port = 3128\<rparr> =
     (0, \<lparr>host = None, port = 3128\<rparr>)"
  by (simp add: proxy_eval)

text \<open>
  C6, amended. For the empty string, for every string that begins with a colon or a
  slash, and for every string whose host segment (after the optional \<open>http://\<close>) is
  empty, \<open>parseProxy\<close> returns 0 and clears the stored host; the stored port is left as
  it was.
\<close>

theorem parseProxy_empty_host:
  "parseProxy (Some []) p = (0, p\<lparr>host := None\<rparr>) \<and>
   parseProxy (Some (CHR '':'' # r)) p = (0, p\<lparr>host := None\<rparr>) \<and>
   parseProxy (Some (CHR ''/'' # r)) p = (0, p\<lparr>host := None\<rparr>) \<and>
   (strcspn (skip_scheme v) '':/'' = 0 \<longrightarrow> parseProxy (Some v) p = (0, p\<lparr>host := None\<rparr>)) \<and>
   port (p\<lparr>host := None\<rparr>) = port p"
  by (simp add: proxy_eval)

theorem parseProxy_empty_host_witness:
  "strcspn (skip_scheme ''http://:3128'') '':/'' = 0 \<and>
   parseProxy (Some ''http://:3128'') \<lparr>host = Some ''old.example.org'', port = 8080\<rparr> =
     (0, \<lparr>host = None, port = 8080\<rparr>)"
proof -
  have z: "strcspn (skip_scheme ''http://:3128'') '':/'' = 0"
    by (simp add: proxy_eval)
  with parseProxy_empty_host [of "\<lparr>host = Some ''old.example.org'', port = 8080\<rparr>" "[]" "''http://:3128''"]
  show ?thesis by simp
qed

subsection \<open>C7: a colon without digits, and what may follow the port\<close>

text \<open>
  C7. A colon with no digits after the host is accepted when nothing follows it or
  exactly one slash does: \<open>host:\<close> and \<open>host:/\<close> are accepted with port 80. \<open>host:80/\<close> is
  accepted with port 80. \<open>host:/\<close> and \<open>host:80/\<close> followed by any further character are
  rejected, \<open>host:80/x\<close> among them, and so is \<open>host:\<close> followed by a character that is
  neither a digit nor a slash, \<open>host:x\<close> among them.
\<close>

theorem parseProxy_colon_edge_cases:
  "parseProxy (Some ''host:'') p = (0, p\<lparr>host := Some ''host'', port := 80\<rparr>) \<and>
   parseProxy (Some ''host:/'') p = (0, p\<lparr>host := Some ''host'', port := 80\<rparr>) \<and>
   parseProxy (Some ''host:80/'') p = (0, p\<lparr>host := Some ''host'', port := 80\<rparr>) \<and>
   parseProxy (Some ''host:80/x'') p = (1, p) \<and>
   parseProxy (Some ''host:x'') p = (1, p) \<and>
   (c \<noteq> NUL \<longrightarrow> parseProxy (Some (''host:80/'' @ c # r)) p = (1, p)) \<and>
   (c \<noteq> NUL \<longrightarrow> parseProxy (Some (''host:/'' @ c # r)) p = (1, p)) \<and>
   (c \<noteq> NUL \<and> c \<noteq> CHR ''/'' \<and> \<not> isdigit c \<longrightarrow>
      parseProxy (Some (''host:'' @ c # r)) p = (1, p))"
proof (intro conjI impI)
  show "parseProxy (Some ''host:'') p = (0, p\<lparr>host := Some ''host'', port := 80\<rparr>)"
    by (simp add: proxy_eval)
  show "parseProxy (Some ''host:/'') p = (0, p\<lparr>host := Some ''host'', port := 80\<rparr>)"
    by (simp add: proxy_eval)
  show "parseProxy (Some (''host:/'' @ c # r)) p = (1, p)" if "c \<noteq> NUL"
    using that by (simp add: proxy_eval)
  show "parseProxy (Some ''host:80/'') p = (0, p\<lparr>host := Some ''host'', port := 80\<rparr>)"
    by (simp add: proxy_eval)
  show "parseProxy (Some ''host:80/x'') p = (1, p)"
    by (simp add: proxy_eval)
  show "parseProxy (Some ''host:x'') p = (1, p)"
    by (simp add: proxy_eval)
  show "parseProxy (Some (''host:80/'' @ c # r)) p = (1, p)" if "c \<noteq> NUL"
    using that by (simp add: proxy_eval)
  show "parseProxy (Some (''host:'' @ c # r)) p = (1, p)"
    if "c \<noteq> NUL \<and> c \<noteq> CHR ''/'' \<and> \<not> isdigit c"
    using that
    by (simp add: parseProxy_def skip_scheme_def scan_port_def peek_def tolower_def
        strncasecmp_numeral Let_def)
qed

theorem parseProxy_colon_edge_cases_witness:
  "CHR ''y'' \<noteq> NUL \<and> CHR ''y'' \<noteq> CHR ''/'' \<and> \<not> isdigit (CHR ''y'') \<and>
   parseProxy (Some ''host:80/yz'') \<lparr>host = Some ''old.example.org'', port = 3128\<rparr> =
     (1, \<lparr>host = Some ''old.example.org'', port = 3128\<rparr>) \<and>
   parseProxy (Some ''host:yz'') \<lparr>host = Some ''old.example.org'', port = 3128\<rparr> =
     (1, \<lparr>host = Some ''old.example.org'', port = 3128\<rparr>) \<and>
   parseProxy (Some ''host:/yz'') \<lparr>host = Some ''old.example.org'', port = 3128\<rparr> =
     (1, \<lparr>host = Some ''old.example.org'', port = 3128\<rparr>) \<and>
   parseProxy (Some ''host:/'') \<lparr>host = Some ''old.example.org'', port = 3128\<rparr> =
     (0, \<lparr>host = Some ''host'', port = 80\<rparr>)"
proof -
  have c: "CHR ''y'' \<noteq> NUL \<and> CHR ''y'' \<noteq> CHR ''/'' \<and> \<not> isdigit (CHR ''y'')"
    by (simp add: isdigit_def)
  with parseProxy_colon_edge_cases
    [of "\<lparr>host = Some ''old.example.org'', port = 3128\<rparr>" "CHR ''y''" "''z''"]
  show ?thesis by simp
qed

section \<open>Properties of the credential obfuscation\<close>

subsection \<open>The loops in closed form\<close>

lemma xor_loop_closed_aux:
  "len - i = k \<Longrightarrow> i \<le> len \<Longrightarrow> len \<le> length buf \<Longrightarrow> len \<le> length pad \<Longrightarrow>
   xor_loop i len buf pad =
     Inr (map (\<lambda>j. if i \<le> j \<and> j < len then buf ! j XOR pad ! j else buf ! j) [0..<length buf])"
proof (induction k arbitrary: i buf)
  case 0
  then have "i = len" by simp
  then show ?case
    by (auto simp: xor_loop.simps [of len] intro!: nth_equalityI)
next
  case (Suc k)
  then have i: "i < len" "i < length buf" "i < length pad" by simp_all
  let ?b = "buf[i := buf ! i XOR pad ! i]"
  from Suc.prems have "xor_loop (Suc i) len ?b pad =
     Inr (map (\<lambda>j. if Suc i \<le> j \<and> j < len then ?b ! j XOR pad ! j else ?b ! j) [0..<length ?b])"
    by (intro Suc.IH) simp_all
  moreover have "map (\<lambda>j. if Suc i \<le> j \<and> j < len then ?b ! j XOR pad ! j else ?b ! j) [0..<length ?b] =
     map (\<lambda>j. if i \<le> j \<and> j < len then buf ! j XOR pad ! j else buf ! j) [0..<length buf]"
    using i by (auto simp: nth_list_update)
  ultimately show ?case
    using i by (simp add: xor_loop.simps [of i])
qed

lemma xor_loop_closed:
  "len \<le> length buf \<Longrightarrow> len \<le> length pad \<Longrightarrow>
   xor_loop 0 len buf pad = Inr (xor_upto len buf pad)"
  using xor_loop_closed_aux [of len 0 "len" buf pad] by (simp add: xor_upto_def)

lemma length_xor_upto [simp]: "length (xor_upto len buf pad) = length buf"
  by (simp add: xor_upto_def)

lemma xor_upto_twice [simp]: "xor_upto len (xor_upto len buf pad) pad = buf"
  by (rule nth_equalityI) (simp_all add: xor_upto_def xor.assoc)

lemma pad_loop_closed_aux:
  "len - i = k \<Longrightarrow> i \<le> len \<Longrightarrow> length pad = len \<Longrightarrow>
   pad_loop i len pad r = Inr (take i pad @ map ucast (stake k r), sdrop k r)"
proof (induction k arbitrary: i pad r)
  case 0
  then show ?case by (simp add: pad_loop.simps [of i])
next
  case (Suc k)
  then have i: "i < len" "i < length pad" by simp_all
  let ?p = "pad[i := ucast (shd r)]"
  from Suc.prems have "pad_loop (Suc i) len ?p (stl r) =
      Inr (take (Suc i) ?p @ map ucast (stake k (stl r)), sdrop k (stl r))"
    by (intro Suc.IH) simp_all
  moreover from i have "take (Suc i) ?p = take i pad @ [ucast (shd r)]"
    by (simp add: take_Suc_conv_app_nth)
  ultimately show ?case
    using i by (simp add: pad_loop.simps [of i])
qed

lemma pad_loop_closed:
  "pad_loop 0 len (myMalloc len) r = Inr (map ucast (stake len r), sdrop len r)"
  using pad_loop_closed_aux [of len 0 len "myMalloc len" r] by (simp add: myMalloc_def)

lemma clear_loop_closed_aux:
  "len - i = k \<Longrightarrow> i \<le> len \<Longrightarrow> len \<le> length buf \<Longrightarrow> len \<le> length pad \<Longrightarrow>
   clear_loop i len (Some buf) (Some pad) r =
     Inr (Some (take i buf @ map (\<lambda>j. ucast (r !! (2 * j))) [0..<k] @ drop len buf),
          Some (take i pad @ map (\<lambda>j. ucast (r !! (2 * j + 1))) [0..<k] @ drop len pad),
          sdrop (2 * k) r)"
proof (induction k arbitrary: i buf pad r)
  case 0
  then have "i = len" by simp
  then show ?case by (simp add: clear_loop.simps [of len])
next
  case (Suc k)
  then have i: "i < len" "i < length buf" "i < length pad" by simp_all
  let ?b = "buf[i := ucast (shd r)]"
  let ?p = "pad[i := ucast (shd (stl r))]"
  let ?r = "stl (stl r)"
  from Suc.prems have "clear_loop (Suc i) len (Some ?b) (Some ?p) ?r =
     Inr (Some (take (Suc i) ?b @ map (\<lambda>j. ucast (?r !! (2 * j))) [0..<k] @ drop len ?b),
          Some (take (Suc i) ?p @ map (\<lambda>j. ucast (?r !! (2 * j + 1))) [0..<k] @ drop len ?p),
          sdrop (2 * k) ?r)"
    by (intro Suc.IH) simp_all
  moreover from i have "take (Suc i) ?b = take i buf @ [ucast (r !! 0)]"
    "take (Suc i) ?p = take i pad @ [ucast (r !! 1)]"
    by (simp_all add: take_Suc_conv_app_nth)
  moreover from i have "drop len ?b = drop len buf" "drop len ?p = drop len pad"
    by simp_all
  moreover have "map (\<lambda>j. ucast (r !! (2 * j)) :: byte) [0..<Suc k] =
      ucast (r !! 0) # map (\<lambda>j. ucast (?r !! (2 * j))) [0..<k]"
    "map (\<lambda>j. ucast (r !! (2 * j + 1)) :: byte) [0..<Suc k] =
      ucast (r !! 1) # map (\<lambda>j. ucast (?r !! (2 * j + 1))) [0..<k]"
    by (simp_all add: map_upt_Suc del: upt_Suc)
  ultimately show ?case
    using i by (simp add: clear_loop.simps [of i] poke_def del: upt_Suc)
qed

lemma clear_loop_closed:
  "len \<le> length buf \<Longrightarrow> len \<le> length pad \<Longrightarrow>
   clear_loop 0 len (Some buf) (Some pad) r =
     Inr (Some (map (\<lambda>j. ucast (r !! (2 * j))) [0..<len] @ drop len buf),
          Some (map (\<lambda>j. ucast (r !! (2 * j + 1))) [0..<len] @ drop len pad),
          sdrop (2 * len) r)"
  using clear_loop_closed_aux [of len 0 len buf pad r] by simp

lemma clear_loop_zero: "clear_loop 0 0 pw pad r = Inr (pw, pad, r)"
  by (simp add: clear_loop.simps [of 0])

lemma strlen_Inr_iff: "(\<exists>n. strlen buf = Inr n) \<longleftrightarrow> 0 \<in> set buf"
  by (induction buf) (auto split: sum.splits)

lemma strlen_less: "strlen buf = Inr n \<Longrightarrow> n < length buf"
  by (induction buf arbitrary: n) (auto split: sum.splits if_splits)


lemma xor_upto_zero [simp]: "xor_upto 0 buf pad = buf"
  by (rule nth_equalityI) (simp_all add: xor_upto_def)

subsection \<open>What each operation does\<close>

lemma seed_fields [simp]:
  "password (seedPasswordRandom g) = password g"
  "encrypted (seedPasswordRandom g) = encrypted g"
  "passwordPad (seedPasswordRandom g) = passwordPad g"
  "passwordLen (seedPasswordRandom g) = passwordLen g"
  "freed (seedPasswordRandom g) = freed g"
  "needSeed (seedPasswordRandom g) = False"
  by (simp_all add: seedPasswordRandom_def)

lemma seed_seeded: "\<not> needSeed g \<Longrightarrow> seedPasswordRandom g = g"
  by (simp add: seedPasswordRandom_def)

lemma xor_password_run:
  assumes "password g = Some buf" "passwordPad g = Some pad"
    and "passwordLen g \<le> length buf" "passwordLen g \<le> length pad"
  shows "xor_password g = Inr (g\<lparr>password := Some (xor_upto (passwordLen g) buf pad)\<rparr>)"
  using assms by (simp add: xor_password_def xor_loop_closed)

lemma encrypt_noop:
  "encrypted g \<or> password g = None \<Longrightarrow> encryptPassword g = Inr g"
  by (auto simp: encryptPassword_def)

lemma decrypt_noop:
  "\<not> encrypted g \<or> password g = None \<or> passwordPad g = None \<Longrightarrow> decryptPassword g = Inr g"
  by (auto simp: decryptPassword_def)

lemma encrypt_first:
  assumes "password g = Some buf" "\<not> encrypted g" "passwordPad g = None" "strlen buf = Inr n"
  shows "encryptPassword g =
    Inr ((seedPasswordRandom g)
          \<lparr>passwordLen := n + 1,
           passwordPad := Some (map ucast (stake (n + 1) (rnd (seedPasswordRandom g)))),
           rnd := sdrop (n + 1) (rnd (seedPasswordRandom g)),
           password := Some (xor_upto (n + 1) buf
                        (map ucast (stake (n + 1) (rnd (seedPasswordRandom g))))),
           encrypted := True\<rparr>)"
proof -
  let ?g = "seedPasswordRandom g"
  let ?pad = "map ucast (stake (n + 1) (rnd ?g)) :: byte list"
  let ?g1 = "?g\<lparr>passwordLen := n + 1, passwordPad := Some ?pad, rnd := sdrop (n + 1) (rnd ?g)\<rparr>"
  from assms have mk: "make_pad ?g = Inr ?g1"
    by (simp add: make_pad_def pad_loop_closed)
  from strlen_less [OF assms(4)] have "n + 1 \<le> length buf" by simp
  with assms have "xor_password ?g1 = Inr (?g1\<lparr>password := Some (xor_upto (n + 1) buf ?pad)\<rparr>)"
    by (subst xor_password_run [of _ buf ?pad]) simp_all
  with mk assms show ?thesis
    by (simp add: encryptPassword_def)
qed

lemma encrypt_again:
  assumes "password g = Some buf" "\<not> encrypted g" "passwordPad g = Some pad"
    and "passwordLen g \<le> length buf" "passwordLen g \<le> length pad"
  shows "encryptPassword g =
    Inr ((seedPasswordRandom g)
          \<lparr>password := Some (xor_upto (passwordLen g) buf pad), encrypted := True\<rparr>)"
proof -
  let ?g = "seedPasswordRandom g"
  from assms have mk: "make_pad ?g = Inr ?g"
    by (simp add: make_pad_def)
  from assms have "xor_password ?g = Inr (?g\<lparr>password := Some (xor_upto (passwordLen g) buf pad)\<rparr>)"
    by (subst xor_password_run [of _ buf pad]) simp_all
  with mk assms show ?thesis
    by (simp add: encryptPassword_def)
qed

lemma decrypt_run:
  assumes "password g = Some buf" "encrypted g" "passwordPad g = Some pad"
    and "passwordLen g \<le> length buf" "passwordLen g \<le> length pad"
  shows "decryptPassword g =
    Inr (g\<lparr>password := Some (xor_upto (passwordLen g) buf pad), encrypted := False\<rparr>)"
  using assms by (simp add: decryptPassword_def xor_password_run [of _ buf pad])

lemma clear_run:
  assumes "password g = Some buf" "passwordPad g = Some pad"
    and "passwordLen g \<le> length buf" "passwordLen g \<le> length pad"
  shows "clearPassword g =
    Inr ((seedPasswordRandom g)
          \<lparr>password := None, passwordPad := None, passwordLen := 0,
           rnd := sdrop (2 * passwordLen g) (rnd (seedPasswordRandom g)),
           freed := freed g @
             [map (\<lambda>j. ucast (rnd (seedPasswordRandom g) !! (2 * j))) [0..<passwordLen g]
                @ drop (passwordLen g) buf,
              map (\<lambda>j. ucast (rnd (seedPasswordRandom g) !! (2 * j + 1))) [0..<passwordLen g]
                @ drop (passwordLen g) pad]\<rparr>)"
  using assms by (simp add: clearPassword_def clear_loop_closed free_def Let_def)

lemma clear_no_pad:
  assumes "passwordLen g = 0"
  shows "clearPassword g =
    Inr ((seedPasswordRandom g)
          \<lparr>password := None, passwordPad := None, passwordLen := 0,
           rnd := rnd (seedPasswordRandom g),
           freed := free (passwordPad g) (free (password g) (freed g))\<rparr>)"
  using assms by (simp add: clearPassword_def clear_loop_zero Let_def)

subsection \<open>The invariant\<close>

lemma inv_no_pad:
  "passwordPad g = None \<Longrightarrow>
   guard_inv g \<longleftrightarrow> passwordLen g = 0 \<and>
     (case password g of None \<Rightarrow> True | Some buf \<Rightarrow> encrypted g \<or> 0 \<in> set buf)"
  by (simp add: guard_inv_def)

lemma inv_pad:
  "passwordPad g = Some pad \<Longrightarrow>
   guard_inv g \<longleftrightarrow> 0 < passwordLen g \<and> length pad = passwordLen g \<and>
     (\<exists>buf. password g = Some buf \<and> passwordLen g \<le> length buf \<and>
        strlen (if encrypted g then xor_upto (passwordLen g) buf pad else buf) =
          Inr (passwordLen g - 1))"
  by (auto simp: guard_inv_def plain_def split: option.splits)

lemma encrypt_inv:
  assumes "guard_inv g"
  shows "\<exists>g'. encryptPassword g = Inr g' \<and> guard_inv g' \<and> plain g' = plain g"
proof (cases "encrypted g \<or> password g = None")
  case True
  with assms show ?thesis by (simp add: encrypt_noop)
next
  case False
  then obtain buf where buf: "password g = Some buf" "\<not> encrypted g" by auto
  show ?thesis
  proof (cases "passwordPad g")
    case None
    with assms buf have "0 \<in> set buf" by (simp add: inv_no_pad)
    then obtain n where n: "strlen buf = Inr n" using strlen_Inr_iff by blast
    from strlen_less [OF n] have "n + 1 \<le> length buf" by simp
    with n show ?thesis
      by (simp add: encrypt_first [OF buf None n] inv_pad plain_def buf None)
  next
    case (Some pad)
    with assms buf have l: "passwordLen g \<le> length buf" "passwordLen g \<le> length pad"
      by (auto simp: inv_pad)
    from assms buf Some show ?thesis
      by (auto simp: encrypt_again [OF buf Some l] inv_pad plain_def)
  qed
qed

lemma decrypt_inv:
  assumes "guard_inv g"
  shows "\<exists>g'. decryptPassword g = Inr g' \<and> guard_inv g' \<and> plain g' = plain g"
proof (cases "\<not> encrypted g \<or> password g = None \<or> passwordPad g = None")
  case True
  with assms show ?thesis by (simp add: decrypt_noop)
next
  case False
  then obtain buf pad where f: "password g = Some buf" "encrypted g" "passwordPad g = Some pad"
    by auto
  with assms have l: "passwordLen g \<le> length buf" "passwordLen g \<le> length pad"
    by (auto simp: inv_pad)
  from assms f show ?thesis
    by (auto simp: decrypt_run [OF f l] inv_pad plain_def)
qed

lemma clear_inv:
  assumes "guard_inv g"
  shows "\<exists>g'. clearPassword g = Inr g' \<and> guard_inv g' \<and>
     password g' = None \<and> passwordPad g' = None \<and> passwordLen g' = 0"
proof (cases "passwordPad g")
  case None
  with assms have "passwordLen g = 0" by (simp add: inv_no_pad)
  then show ?thesis
    by (simp add: clear_no_pad inv_no_pad)
next
  case (Some pad)
  with assms obtain buf where f: "password g = Some buf"
    and l: "passwordLen g \<le> length buf" "passwordLen g \<le> length pad"
    by (auto simp: inv_pad)
  show ?thesis
    by (simp add: clear_run [OF f Some l] inv_no_pad)
qed

lemma fresh_secret_inv:
  "0 \<notin> set P \<Longrightarrow> password g = Some (P @ [0]) \<Longrightarrow> passwordPad g = None \<Longrightarrow>
   passwordLen g = 0 \<Longrightarrow> guard_inv g"
  by (simp add: inv_no_pad)

lemma stake_numeral:
  "stake (numeral k) s = shd s # stake (pred_numeral k) (stl s)"
  by (simp add: numeral_eq_Suc)

lemmas guard_eval = encryptPassword_def decryptPassword_def clearPassword_def make_pad_def
  xor_password_def seedPasswordRandom_def fresh_ab_def myMalloc_def poke_def free_def
  pad_loop.simps xor_loop.simps clear_loop.simps

subsection \<open>C1: obfuscating and revealing gives the password back\<close>

text \<open>
  C1. In every state that satisfies the invariant and holds a password in plaintext
  (a new password \<open>P\<close> of any length, the empty one included, stored as \<open>P @ [0]\<close> with
  no pad yet, is such a state by \<open>fresh_secret_inv\<close>), \<open>encryptPassword\<close> returns, sets the
  flag, and \<open>decryptPassword\<close> after it returns with the flag cleared and every byte of
  the buffer as it was.
\<close>

theorem encrypt_decrypt_round_trip:
  assumes "guard_inv g" and "password g = Some buf" and "\<not> encrypted g"
  shows "\<exists>g1 g2. encryptPassword g = Inr g1 \<and> encrypted g1 \<and>
           decryptPassword g1 = Inr g2 \<and> password g2 = Some buf \<and> \<not> encrypted g2"
proof (cases "passwordPad g")
  case None
  with assms have "0 \<in> set buf" by (simp add: inv_no_pad)
  then obtain n where n: "strlen buf = Inr n" using strlen_Inr_iff by blast
  from strlen_less [OF n] have l: "n + 1 \<le> length buf" by simp
  let ?s = "seedPasswordRandom g"
  let ?pad = "map ucast (stake (n + 1) (rnd ?s)) :: byte list"
  let ?g1 = "?s\<lparr>passwordLen := n + 1, passwordPad := Some ?pad,
           rnd := sdrop (n + 1) (rnd ?s),
           password := Some (xor_upto (n + 1) buf ?pad), encrypted := True\<rparr>"
  have e: "encryptPassword g = Inr ?g1"
    by (rule encrypt_first [OF assms(2,3) None n])
  from l have "decryptPassword ?g1 =
      Inr (?g1\<lparr>password := Some (xor_upto (passwordLen ?g1) (xor_upto (n + 1) buf ?pad) ?pad),
                encrypted := False\<rparr>)"
    by (intro decrypt_run) simp_all
  with e show ?thesis by simp
next
  case (Some pad)
  with assms have l: "passwordLen g \<le> length buf" "passwordLen g \<le> length pad"
    by (auto simp: inv_pad)
  let ?g1 = "(seedPasswordRandom g)
          \<lparr>password := Some (xor_upto (passwordLen g) buf pad), encrypted := True\<rparr>"
  have e: "encryptPassword g = Inr ?g1"
    by (rule encrypt_again [OF assms(2,3) Some l])
  from l Some have "decryptPassword ?g1 =
      Inr (?g1\<lparr>password := Some (xor_upto (passwordLen ?g1) (xor_upto (passwordLen g) buf pad) pad),
                encrypted := False\<rparr>)"
    by (intro decrypt_run) simp_all
  with e show ?thesis by simp
qed

theorem encrypt_decrypt_round_trip_witness:
  "guard_inv fresh_ab \<and> password fresh_ab = Some [97, 98, 0] \<and> \<not> encrypted fresh_ab \<and>
   (\<exists>g1 g2. encryptPassword fresh_ab = Inr g1 \<and> encrypted g1 \<and>
      decryptPassword g1 = Inr g2 \<and> password g2 = Some [97, 98, 0] \<and> \<not> encrypted g2)"
proof -
  have h: "guard_inv fresh_ab" "password fresh_ab = Some [97, 98, 0]" "\<not> encrypted fresh_ab"
    by (simp_all add: guard_inv_def fresh_ab_def)
  from h encrypt_decrypt_round_trip [OF h] show ?thesis by blast
qed

subsection \<open>C4: a new password and the old pad\<close>

text \<open>
  C4, as stated, fails. Obfuscate and reveal the password \<open>ab\<close>; the pad is \<open>[1, 2, 3]\<close>
  and the length 3. Replace the password by \<open>wxyz\<close> and obfuscate again: no byte is
  drawn from the generator, the pad and the length are those of \<open>ab\<close>, and the bytes
  \<open>z\<close> and NUL of the new password are left as they were.
\<close>

theorem stale_pad_counterexample:
  "encryptPassword fresh_ab =
     Inr (fresh_ab\<lparr>password := Some [96, 96, 3], encrypted := True,
            passwordPad := Some [1, 2, 3], passwordLen := 3, needSeed := False,
            rnd := siterate ((+) 1) 4\<rparr>) \<and>
   decryptPassword (fresh_ab\<lparr>password := Some [96, 96, 3], encrypted := True,
            passwordPad := Some [1, 2, 3], passwordLen := 3, needSeed := False,
            rnd := siterate ((+) 1) 4\<rparr>) =
     Inr (fresh_ab\<lparr>passwordPad := Some [1, 2, 3], passwordLen := 3, needSeed := False,
            rnd := siterate ((+) 1) 4\<rparr>) \<and>
   encryptPassword (fresh_ab\<lparr>password := Some [119, 120, 121, 122, 0],
            passwordPad := Some [1, 2, 3], passwordLen := 3, needSeed := False,
            rnd := siterate ((+) 1) 4\<rparr>) =
     Inr (fresh_ab\<lparr>password := Some [118, 122, 122, 122, 0], encrypted := True,
            passwordPad := Some [1, 2, 3], passwordLen := 3, needSeed := False,
            rnd := siterate ((+) 1) 4\<rparr>)"
  by (simp add: guard_eval)

text \<open>
  C4, amended. In every state that satisfies the invariant, once \<open>clearPassword\<close> has
  disposed of the old secret and a new plaintext password (a C string of length \<open>n\<close>)
  has been stored, \<open>encryptPassword\<close> makes a new pad: its length is \<open>n + 1\<close> and its
  bytes are the next \<open>n + 1\<close> results of \<open>random()\<close>, drawn after those that
  \<open>clearPassword\<close> used.
\<close>

theorem new_pad_after_clear:
  assumes "guard_inv g" and "strlen new = Inr n"
  shows "\<exists>g1 g3. clearPassword g = Inr g1 \<and>
           encryptPassword (g1\<lparr>password := Some new, encrypted := False\<rparr>) = Inr g3 \<and>
           passwordLen g3 = n + 1 \<and>
           passwordPad g3 = Some (map ucast (stake (n + 1) (rnd g1))) \<and>
           password g3 = Some (xor_upto (n + 1) new (map ucast (stake (n + 1) (rnd g1)))) \<and>
           encrypted g3"
proof -
  from clear_inv [OF assms(1)] obtain g1 where g1: "clearPassword g = Inr g1"
    "passwordPad g1 = None" by blast
  from g1(1) have seeded: "\<not> needSeed g1"
    by (auto simp: clearPassword_def Let_def split: sum.splits)
  let ?g2 = "g1\<lparr>password := Some new, encrypted := False\<rparr>"
  from seeded have s: "seedPasswordRandom ?g2 = ?g2"
    by (simp add: seed_seeded)
  from g1(2) have "encryptPassword ?g2 =
    Inr ((seedPasswordRandom ?g2)
          \<lparr>passwordLen := n + 1,
           passwordPad := Some (map ucast (stake (n + 1) (rnd (seedPasswordRandom ?g2)))),
           rnd := sdrop (n + 1) (rnd (seedPasswordRandom ?g2)),
           password := Some (xor_upto (n + 1) new
                        (map ucast (stake (n + 1) (rnd (seedPasswordRandom ?g2))))),
           encrypted := True\<rparr>)"
    by (intro encrypt_first assms(2)) simp_all
  with g1(1) s show ?thesis by simp
qed

theorem new_pad_after_clear_witness:
  "guard_inv (fresh_ab\<lparr>passwordPad := Some [1, 2, 3], passwordLen := 3, needSeed := False,
       rnd := siterate ((+) 1) 4\<rparr>) \<and>
   strlen [119, 120, 121, 122, 0] = Inr 4 \<and>
   (\<exists>g1 g3. clearPassword (fresh_ab\<lparr>passwordPad := Some [1, 2, 3], passwordLen := 3,
         needSeed := False, rnd := siterate ((+) 1) 4\<rparr>) = Inr g1 \<and>
      rnd g1 = siterate ((+) 1) 10 \<and>
      encryptPassword (g1\<lparr>password := Some [119, 120, 121, 122, 0], encrypted := False\<rparr>) = Inr g3 \<and>
      passwordLen g3 = 5 \<and> passwordPad g3 = Some [10, 11, 12, 13, 14])"
proof -
  let ?g = "fresh_ab\<lparr>passwordPad := Some [1, 2, 3], passwordLen := 3, needSeed := False,
       rnd := siterate ((+) 1) 4\<rparr>"
  have h: "guard_inv ?g" "strlen [119, 120, 121, 122, 0] = Inr 4"
    by (simp_all add: guard_inv_def plain_def fresh_ab_def)
  from new_pad_after_clear [OF h] obtain g1 g3 where
    r: "clearPassword ?g = Inr g1"
      "encryptPassword (g1\<lparr>password := Some [119, 120, 121, 122, 0], encrypted := False\<rparr>) = Inr g3"
      "passwordLen g3 = 4 + 1" "passwordPad g3 = Some (map ucast (stake (4 + 1) (rnd g1)))"
    by blast
  have "clearPassword ?g = Inr (fresh_ab\<lparr>password := None, passwordPad := None,
      passwordLen := 0, needSeed := False, rnd := siterate ((+) 1) 10,
      freed := [[4, 6, 8], [5, 7, 9]]\<rparr>)"
    by (simp add: guard_eval)
  with r(1) have g1: "rnd g1 = siterate ((+) 1) 10" by auto
  have "map ucast (stake (4 + 1) (siterate ((+) 1) (10 :: long))) = [10, 11, 12, 13, 14 :: byte]"
    by (simp add: stake_numeral del: stake_siterate)
  with h r g1 show ?thesis by auto
qed

subsection \<open>C8: the operations on a state they have nothing to do in\<close>

text \<open>
  C8, as stated, fails. The empty password is a block that holds the terminator alone.
  It is not absent, and \<open>encryptPassword\<close> does not return it unchanged: it makes a pad
  of one byte, XORs the terminator with it and sets the flag.
\<close>

theorem encrypt_empty_password_counterexample:
  "encryptPassword (fresh_ab\<lparr>password := Some [0]\<rparr>) =
     Inr (fresh_ab\<lparr>password := Some [1], encrypted := True, passwordPad := Some [1],
            passwordLen := 1, needSeed := False, rnd := siterate ((+) 1) 2\<rparr>)"
  by (simp add: guard_eval)

text \<open>
  C8, amended. \<open>encryptPassword\<close> returns the state as it is when the flag says
  obfuscated or the password is absent (a null pointer); \<open>decryptPassword\<close> returns the
  state as it is when the flag says plaintext, or the password is absent, or the pad
  is. None of the three operations has an error result, and in a state that satisfies
  the invariant each of them returns.
\<close>

theorem guard_no_ops:
  "(encrypted g \<or> password g = None \<longrightarrow> encryptPassword g = Inr g) \<and>
   (\<not> encrypted g \<or> password g = None \<or> passwordPad g = None \<longrightarrow> decryptPassword g = Inr g) \<and>
   (guard_inv g \<longrightarrow>
      (\<exists>g'. encryptPassword g = Inr g') \<and> (\<exists>g'. decryptPassword g = Inr g') \<and>
      (\<exists>g'. clearPassword g = Inr g'))"
proof (intro conjI impI)
  show "encryptPassword g = Inr g" if "encrypted g \<or> password g = None"
    using that by (rule encrypt_noop)
  show "decryptPassword g = Inr g" if "\<not> encrypted g \<or> password g = None \<or> passwordPad g = None"
    using that by (rule decrypt_noop)
  show "\<exists>g'. encryptPassword g = Inr g'" if "guard_inv g"
    using encrypt_inv [OF that] by blast
  show "\<exists>g'. decryptPassword g = Inr g'" if "guard_inv g"
    using decrypt_inv [OF that] by blast
  show "\<exists>g'. clearPassword g = Inr g'" if "guard_inv g"
    using clear_inv [OF that] by blast
qed

theorem guard_no_ops_witness:
  "password (fresh_ab\<lparr>password := None\<rparr>) = None \<and>
   encryptPassword (fresh_ab\<lparr>password := None\<rparr>) = Inr (fresh_ab\<lparr>password := None\<rparr>) \<and>
   passwordPad fresh_ab = None \<and>
   decryptPassword fresh_ab = Inr fresh_ab \<and>
   guard_inv fresh_ab \<and>
   (\<exists>g'. encryptPassword fresh_ab = Inr g') \<and> (\<exists>g'. decryptPassword fresh_ab = Inr g') \<and>
   (\<exists>g'. clearPassword fresh_ab = Inr g')"
proof -
  have a: "password (fresh_ab\<lparr>password := None\<rparr>) = None"
    by simp
  have b: "passwordPad fresh_ab = None"
    by (simp add: fresh_ab_def)
  have c: "guard_inv fresh_ab"
    by (simp add: guard_inv_def fresh_ab_def)
  from a guard_no_ops [of "fresh_ab\<lparr>password := None\<rparr>"]
  have "encryptPassword (fresh_ab\<lparr>password := None\<rparr>) = Inr (fresh_ab\<lparr>password := None\<rparr>)"
    by blast
  with a b c guard_no_ops [of fresh_ab] show ?thesis by blast
qed

subsection \<open>C9: disposal\<close>

text \<open>
  C9. The code does not do this for a password that was never obfuscated. Such a
  password has no pad and the stored length is 0, the bound of the overwriting loop:
  \<open>clearPassword\<close> overwrites nothing, draws nothing from the generator, and releases
  the block with the password \<open>ab\<close> and its terminator in it.
\<close>

theorem clearPassword_plaintext_released:
  "clearPassword fresh_ab =
     Inr (fresh_ab\<lparr>password := None, needSeed := False, rnd := siterate ((+) 1) 1,
            freed := [[97, 98, 0]]\<rparr>)"
  by (simp add: guard_eval)

text \<open>
  The path with a pad does overwrite. In a state that satisfies the invariant and has a
  pad (the secret has been obfuscated at least once), \<open>clearPassword\<close> returns, and the
  two blocks it
  releases are the password block with its first \<open>passwordLen\<close> bytes overwritten, which
  are the whole password string and its terminator, and the pad with every byte
  overwritten. The new bytes are the low bytes of successive results of \<open>random()\<close>:
  byte \<open>j\<close> of the password is result \<open>2 * j\<close> and byte \<open>j\<close> of the pad is result
  \<open>2 * j + 1\<close>, counted from the generator as it is after seeding. In every state that
  satisfies the invariant, with a pad or not, there is afterwards no password, no pad,
  and the stored length is 0.
\<close>

lemma clearPassword_with_pad:
  assumes "guard_inv g"
  shows "(\<exists>g'. clearPassword g = Inr g' \<and>
            password g' = None \<and> passwordPad g' = None \<and> passwordLen g' = 0) \<and>
         (\<forall>pad. passwordPad g = Some pad \<longrightarrow>
            (\<exists>g' buf p n. clearPassword g = Inr g' \<and> password g = Some buf \<and>
               plain g = Some p \<and> strlen p = Inr n \<and> passwordLen g = n + 1 \<and>
               length pad = n + 1 \<and> n + 1 \<le> length buf \<and>
               freed g' = freed g @
                 [map (\<lambda>j. ucast (rnd (seedPasswordRandom g) !! (2 * j))) [0..<n + 1]
                    @ drop (n + 1) buf,
                  map (\<lambda>j. ucast (rnd (seedPasswordRandom g) !! (2 * j + 1))) [0..<n + 1]]))"
proof (intro conjI allI impI)
  from clear_inv [OF assms]
  show "\<exists>g'. clearPassword g = Inr g' \<and>
            password g' = None \<and> passwordPad g' = None \<and> passwordLen g' = 0"
    by blast
next
  fix pad
  assume pad: "passwordPad g = Some pad"
  with assms obtain buf where buf: "password g = Some buf"
    and l: "passwordLen g \<le> length buf" "passwordLen g \<le> length pad"
    and len: "0 < passwordLen g" "length pad = passwordLen g"
    and s: "strlen (if encrypted g then xor_upto (passwordLen g) buf pad else buf) =
          Inr (passwordLen g - 1)"
    by (auto simp: inv_pad)
  let ?p = "if encrypted g then xor_upto (passwordLen g) buf pad else buf"
  from buf pad have p: "plain g = Some ?p"
    by (simp add: plain_def)
  from len have n: "passwordLen g = (passwordLen g - 1) + 1" by simp
  let ?n = "passwordLen g - 1"
  let ?g' = "(seedPasswordRandom g)
          \<lparr>password := None, passwordPad := None, passwordLen := 0,
           rnd := sdrop (2 * passwordLen g) (rnd (seedPasswordRandom g)),
           freed := freed g @
             [map (\<lambda>j. ucast (rnd (seedPasswordRandom g) !! (2 * j))) [0..<passwordLen g]
                @ drop (passwordLen g) buf,
              map (\<lambda>j. ucast (rnd (seedPasswordRandom g) !! (2 * j + 1))) [0..<passwordLen g]
                @ drop (passwordLen g) pad]\<rparr>"
  have c: "clearPassword g = Inr ?g'"
    by (rule clear_run [OF buf pad l])
  from len have d: "drop (passwordLen g) pad = []" by simp
  have "clearPassword g = Inr ?g' \<and> password g = Some buf \<and>
               plain g = Some ?p \<and> strlen ?p = Inr ?n \<and> passwordLen g = ?n + 1 \<and>
               length pad = ?n + 1 \<and> ?n + 1 \<le> length buf \<and>
               freed ?g' = freed g @
                 [map (\<lambda>j. ucast (rnd (seedPasswordRandom g) !! (2 * j))) [0..<?n + 1]
                    @ drop (?n + 1) buf,
                  map (\<lambda>j. ucast (rnd (seedPasswordRandom g) !! (2 * j + 1))) [0..<?n + 1]]"
    using c buf p s len l d by (simp del: upt_Suc)
  then show "\<exists>g' buf p n. clearPassword g = Inr g' \<and> password g = Some buf \<and>
               plain g = Some p \<and> strlen p = Inr n \<and> passwordLen g = n + 1 \<and>
               length pad = n + 1 \<and> n + 1 \<le> length buf \<and>
               freed g' = freed g @
                 [map (\<lambda>j. ucast (rnd (seedPasswordRandom g) !! (2 * j))) [0..<n + 1]
                    @ drop (n + 1) buf,
                  map (\<lambda>j. ucast (rnd (seedPasswordRandom g) !! (2 * j + 1))) [0..<n + 1]]"
    by blast
qed

lemma clearPassword_with_pad_example:
  "guard_inv (fresh_ab\<lparr>password := Some [96, 96, 3], encrypted := True,
       passwordPad := Some [1, 2, 3], passwordLen := 3, needSeed := False,
       rnd := siterate ((+) 1) 4\<rparr>) \<and>
   (\<exists>g' n. clearPassword (fresh_ab\<lparr>password := Some [96, 96, 3], encrypted := True,
         passwordPad := Some [1, 2, 3], passwordLen := 3, needSeed := False,
         rnd := siterate ((+) 1) 4\<rparr>) = Inr g' \<and>
      password g' = None \<and> passwordPad g' = None \<and> passwordLen g' = 0 \<and>
      freed g' = [[4, 6, 8], [5, 7, 9]] \<and> length [1, 2, 3 :: byte] = n + 1)"
proof -
  let ?g = "fresh_ab\<lparr>password := Some [96, 96, 3], encrypted := True,
       passwordPad := Some [1, 2, 3], passwordLen := 3, needSeed := False,
       rnd := siterate ((+) 1) 4\<rparr>"
  have h: "guard_inv ?g"
    by (simp add: guard_inv_def plain_def xor_upto_def fresh_ab_def upt_rec)
  have pad: "passwordPad ?g = Some [1, 2, 3]"
    by simp
  from clearPassword_with_pad [OF h] pad obtain g' n where
    r: "clearPassword ?g = Inr g'" "length [1, 2, 3 :: byte] = n + 1"
    by blast
  from clearPassword_with_pad [OF h] obtain g'' where
    e: "clearPassword ?g = Inr g''" "password g'' = None" "passwordPad g'' = None"
      "passwordLen g'' = 0"
    by blast
  have "clearPassword ?g = Inr (fresh_ab\<lparr>password := None, encrypted := True,
      passwordPad := None, passwordLen := 0, needSeed := False, rnd := siterate ((+) 1) 10,
      freed := [[4, 6, 8], [5, 7, 9]]\<rparr>)"
    by (simp add: guard_eval)
  with e have "freed g'' = [[4, 6, 8], [5, 7, 9]]" by auto
  with h e r(2) show ?thesis by blast
qed

subsection \<open>C10: the invariant of the module\<close>

text \<open>
  C10. In a state that satisfies the invariant, the pad pointer is non-null exactly when
  the stored length is positive; when it is positive, it is \<open>strlen\<close> of the plaintext
  plus one, the pad has exactly that many bytes and the password block at least that
  many. Each of the three operations returns from such a state (no store of its loops
  falls outside a block) in a state that satisfies the invariant again, and
  \<open>encryptPassword\<close> and \<open>decryptPassword\<close> leave the plaintext what it was.
\<close>

theorem guard_invariant_kept:
  assumes "guard_inv g"
  shows "(passwordPad g \<noteq> None \<longleftrightarrow> 0 < passwordLen g) \<and>
         (0 < passwordLen g \<longrightarrow>
            (\<exists>pad buf p n. passwordPad g = Some pad \<and> password g = Some buf \<and>
               plain g = Some p \<and> strlen p = Inr n \<and> passwordLen g = n + 1 \<and>
               length pad = passwordLen g \<and> passwordLen g \<le> length buf)) \<and>
         (\<exists>g'. encryptPassword g = Inr g' \<and> guard_inv g' \<and> plain g' = plain g) \<and>
         (\<exists>g'. decryptPassword g = Inr g' \<and> guard_inv g' \<and> plain g' = plain g) \<and>
         (\<exists>g'. clearPassword g = Inr g' \<and> guard_inv g')"
proof (intro conjI impI)
  from assms show "passwordPad g \<noteq> None \<longleftrightarrow> 0 < passwordLen g"
    by (cases "passwordPad g") (simp_all add: inv_no_pad inv_pad)
next
  assume pos: "0 < passwordLen g"
  with assms obtain pad where pad: "passwordPad g = Some pad"
    by (cases "passwordPad g") (simp_all add: inv_no_pad)
  with assms obtain buf where buf: "password g = Some buf"
    and l: "passwordLen g \<le> length buf" "length pad = passwordLen g"
    and s: "strlen (if encrypted g then xor_upto (passwordLen g) buf pad else buf) =
          Inr (passwordLen g - 1)"
    by (auto simp: inv_pad)
  from buf pad have "plain g = Some (if encrypted g then xor_upto (passwordLen g) buf pad else buf)"
    by (simp add: plain_def)
  moreover from pos have "passwordLen g = (passwordLen g - 1) + 1" by simp
  ultimately show "\<exists>pad buf p n. passwordPad g = Some pad \<and> password g = Some buf \<and>
               plain g = Some p \<and> strlen p = Inr n \<and> passwordLen g = n + 1 \<and>
               length pad = passwordLen g \<and> passwordLen g \<le> length buf"
    using pad buf l s by blast
next
  from encrypt_inv [OF assms]
  show "\<exists>g'. encryptPassword g = Inr g' \<and> guard_inv g' \<and> plain g' = plain g" .
next
  from decrypt_inv [OF assms]
  show "\<exists>g'. decryptPassword g = Inr g' \<and> guard_inv g' \<and> plain g' = plain g" .
next
  from clear_inv [OF assms] show "\<exists>g'. clearPassword g = Inr g' \<and> guard_inv g'"
    by blast
qed

theorem guard_invariant_kept_witness:
  "guard_inv (fresh_ab\<lparr>password := Some [96, 96, 3], encrypted := True,
       passwordPad := Some [1, 2, 3], passwordLen := 3, needSeed := False,
       rnd := siterate ((+) 1) 4\<rparr>) \<and>
   (\<exists>g'. decryptPassword (fresh_ab\<lparr>password := Some [96, 96, 3], encrypted := True,
         passwordPad := Some [1, 2, 3], passwordLen := 3, needSeed := False,
         rnd := siterate ((+) 1) 4\<rparr>) = Inr g' \<and> guard_inv g' \<and>
      plain g' = Some [97, 98, 0] \<and> password g' = Some [97, 98, 0])"
proof -
  let ?g = "fresh_ab\<lparr>password := Some [96, 96, 3], encrypted := True,
       passwordPad := Some [1, 2, 3], passwordLen := 3, needSeed := False,
       rnd := siterate ((+) 1) 4\<rparr>"
  have h: "guard_inv ?g"
    by (simp add: guard_inv_def plain_def xor_upto_def fresh_ab_def upt_rec)
  have p: "plain ?g = Some [97, 98, 0]"
    by (simp add: plain_def xor_upto_def fresh_ab_def upt_rec)
  from guard_invariant_kept [OF h] obtain g' where
    r: "decryptPassword ?g = Inr g'" "guard_inv g'" "plain g' = plain ?g"
    by blast
  have "decryptPassword ?g = Inr (fresh_ab\<lparr>passwordPad := Some [1, 2, 3], passwordLen := 3,
      needSeed := False, rnd := siterate ((+) 1) 4\<rparr>)"
    by (simp add: guard_eval)
  with r(1) have "password g' = Some [97, 98, 0]"
    by (auto simp: fresh_ab_def)
  with h r p show ?thesis by auto
qed

end
